theory Spec2Isabelle
  imports Main "HOL-Library.Word"
begin

section \<open>Byte strings, errors and the fixed-width codecs\<close>

type_synonym byte = "8 word"
type_synonym bytes = "byte list"

text \<open>The exceptions the transaction module can raise. \<open>CollaboratorError\<close> stands for
  whatever a collaborator outside this module (base58, the variable-length codec) raises.\<close>

datatype error = AttributeError | StructError | AssertionError | IndexError | TypeError
  | CollaboratorError

definition bind_result :: "error + 'a \<Rightarrow> ('a \<Rightarrow> error + 'b) \<Rightarrow> error + 'b" where
  "bind_result m f = (case m of Inl e \<Rightarrow> Inl e | Inr x \<Rightarrow> f x)"

text \<open>Little-endian bytes of an integer, as \<open>struct.pack\<close> lays them out, and back.\<close>

fun le_bytes :: "nat \<Rightarrow> int \<Rightarrow> bytes" where
  "le_bytes 0 v = []"
| "le_bytes (Suc n) v = word_of_int v # le_bytes n (v div 256)"

fun le_int :: "bytes \<Rightarrow> int" where
  "le_int [] = 0"
| "le_int (b # bs) = uint b + 256 * le_int bs"

text \<open>\<open>pack('<L', v)\<close>, \<open>pack('<Q', v)\<close> and \<open>pack('<i', v)\<close> of the standard library:
  \<open>struct.error\<close> when the value does not fit the format.\<close>

definition pack_L :: "int \<Rightarrow> error + bytes" where
  "pack_L v = (if 0 \<le> v \<and> v < 2 ^ 32 then Inr (le_bytes 4 v) else Inl StructError)"

definition pack_Q :: "int \<Rightarrow> error + bytes" where
  "pack_Q v = (if 0 \<le> v \<and> v < 2 ^ 64 then Inr (le_bytes 8 v) else Inl StructError)"

definition pack_i :: "int \<Rightarrow> error + bytes" where
  "pack_i v = (if - (2 ^ 31) \<le> v \<and> v < 2 ^ 31 then Inr (le_bytes 4 v) else Inl StructError)"

text \<open>Modelled from the spec: \<open>BitcoinEncoding.funpack\<close> is declared outside this module;
  the spec gives it as the fixed-width little-endian unpack primitive, and a buffer too
  short for the declared width is a malformed input. \<open>funpack('<L', b)\<close> and
  \<open>funpack('<Q', b)\<close> read exactly 4 and 8 bytes.\<close>

definition funpack_L :: "bytes \<Rightarrow> error + int" where
  "funpack_L b = (if length b = 4 then Inr (le_int b) else Inl StructError)"

definition funpack_Q :: "bytes \<Rightarrow> error + int" where
  "funpack_Q b = (if length b = 8 then Inr (le_int b) else Inl StructError)"

section \<open>Input and Output records\<close>

record Input =
  prevout_hash :: bytes
  prevout_idx :: int
  script_sig :: bytes
  seqno :: int

record Output =
  amount :: int
  script_pub_key :: bytes

text \<open>\<open>Output.to_address\<close>: the address decoder \<open>address_bytes\<close> of the base58 module is a
  parameter.\<close>

definition to_address :: "(string \<Rightarrow> error + bytes) \<Rightarrow> int \<Rightarrow> string \<Rightarrow> error + Output" where
  "to_address address_bytes amt address =
     bind_result (address_bytes address) (\<lambda>raw_addr.
       Inr \<lparr>amount = amt,
            script_pub_key = [0x76, 0xa9, 0x14] @ raw_addr @ [0x88, 0xac]\<rparr>)"

section \<open>Transaction\<close>

record Transaction =
  priv_raw :: "bytes option"
  inputs :: "Input list"
  outputs :: "Output list"
  locktime :: int
  n_time :: "int option"
  fees :: "int option"
  version :: "int option"
  priv_hash :: "bytes option"
  transaction_message :: "bytes option"

definition nullprev :: bytes where
  "nullprev = replicate 32 0"

text \<open>The \<open>raw\<close> argument of the constructor is any Python value: \<open>None\<close>, a byte string
  (bytearray or newbytes), or a value of another type, of which only the truth value
  matters.\<close>

datatype raw_arg = RawNone | RawBytes bytes | RawOther bool

fun truthy :: "raw_arg \<Rightarrow> bool" where
  "truthy RawNone = False"
| "truthy (RawBytes b) = (b \<noteq> [])"
| "truthy (RawOther t) = t"

subsection \<open>disassemble\<close>

text \<open>The variable-length integer decoder \<open>varlen_decode\<close> of \<open>BitcoinEncoding\<close> is the
  parameter \<open>vdec\<close>: it returns the value and the remaining buffer. The two loops run
  \<open>range(count)\<close> times over the remaining data and append to the list built so far.\<close>

type_synonym varlen_decoder = "bytes \<Rightarrow> error + (nat \<times> bytes)"
type_synonym varlen_encoder = "nat \<Rightarrow> error + bytes"

fun parse_inputs :: "varlen_decoder \<Rightarrow> nat \<Rightarrow> bytes \<Rightarrow> Input list \<Rightarrow> error + (Input list \<times> bytes)" where
  "parse_inputs vdec 0 data acc = Inr (acc, data)"
| "parse_inputs vdec (Suc n) data acc =
     (case funpack_L (take 4 (drop 32 data)) of Inl e \<Rightarrow> Inl e | Inr idx \<Rightarrow>
      case vdec (drop 36 data) of Inl e \<Rightarrow> Inl e | Inr (ss_len, data1) \<Rightarrow>
      case funpack_L (take 4 (drop ss_len data1)) of Inl e \<Rightarrow> Inl e | Inr sq \<Rightarrow>
        parse_inputs vdec n (drop (ss_len + 4) data1)
          (acc @ [\<lparr>prevout_hash = take 32 data, prevout_idx = idx,
                   script_sig = take ss_len data1, seqno = sq\<rparr>]))"

fun parse_outputs :: "varlen_decoder \<Rightarrow> nat \<Rightarrow> bytes \<Rightarrow> Output list \<Rightarrow> error + (Output list \<times> bytes)" where
  "parse_outputs vdec 0 data acc = Inr (acc, data)"
| "parse_outputs vdec (Suc n) data acc =
     (case funpack_Q (take 8 data) of Inl e \<Rightarrow> Inl e | Inr amt \<Rightarrow>
      case vdec (drop 8 data) of Inl e \<Rightarrow> Inl e | Inr (ps_len, data1) \<Rightarrow>
        parse_outputs vdec n (drop ps_len data1)
          (acc @ [\<lparr>amount = amt, script_pub_key = take ps_len data1\<rparr>]))"

text \<open>The part of \<open>disassemble\<close> from the version field to the end of the output loop:
  version, inputs, outputs and the data left for the lock-time field.\<close>

definition parse_body :: "varlen_decoder \<Rightarrow> bytes \<Rightarrow> error + (int \<times> Input list \<times> Output list \<times> bytes)" where
  "parse_body vdec data =
     bind_result (funpack_L (take 4 data)) (\<lambda>ver.
     bind_result (vdec (drop 4 data)) (\<lambda>(input_count, data1).
     bind_result (parse_inputs vdec input_count data1 []) (\<lambda>(ins, data2).
     bind_result (vdec data2) (\<lambda>(output_count, data3).
     bind_result (parse_outputs vdec output_count data3 []) (\<lambda>(outs, data4).
       Inr (ver, ins, outs, data4))))))"

definition disassemble ::
  "varlen_decoder \<Rightarrow> bytes option \<Rightarrow> bool \<Rightarrow> int option \<Rightarrow> Transaction \<Rightarrow> error + Transaction" where
  "disassemble vdec raw dump_raw fs t =
     (let t1 = (case fs of None \<Rightarrow> t | Some f \<Rightarrow> if f \<noteq> 0 then t\<lparr>fees := Some f\<rparr> else t);
          t2 = (case raw of None \<Rightarrow> t1 | Some r \<Rightarrow> if r \<noteq> [] then t1\<lparr>priv_raw := Some r\<rparr> else t1)
      in case priv_raw t2 of
           None \<Rightarrow> Inl TypeError
         | Some data \<Rightarrow>
             bind_result (parse_body vdec data) (\<lambda>(ver, ins, outs, data4).
             bind_result (funpack_L (take 4 data4)) (\<lambda>lt.
               if length data4 \<noteq> 4 then Inl AssertionError
               else Inr (t2\<lparr>version := Some ver, inputs := ins, outputs := outs,
                            locktime := lt, priv_hash := None,
                            priv_raw := (if dump_raw then None else priv_raw t2)\<rparr>))))"

subsection \<open>Construction\<close>

definition Transaction_init ::
  "varlen_decoder \<Rightarrow> raw_arg \<Rightarrow> int option \<Rightarrow> bool \<Rightarrow> bool \<Rightarrow> bool \<Rightarrow> error + Transaction" where
  "Transaction_init vdec raw fs dis pos messages =
     bind_result
       (if truthy raw then
          (case raw of RawBytes b \<Rightarrow> Inr (Some b) | _ \<Rightarrow> Inl AttributeError)
        else Inr None)
       (\<lambda>r.
          let t = \<lparr>priv_raw = r, inputs = [], outputs = [], locktime = 0,
                   n_time = (if pos then Some 0 else None), fees = fs, version = None,
                   priv_hash = None,
                   transaction_message = (if messages then Some [] else None)\<rparr>
          in if dis then disassemble vdec None False None t else Inr t)"

subsection \<open>is_coinbase\<close>

definition is_coinbase :: "Transaction \<Rightarrow> error + bool" where
  "is_coinbase t =
     (case inputs t of [] \<Rightarrow> Inl IndexError | i # _ \<Rightarrow> Inr (prevout_hash i = nullprev))"

subsection \<open>assemble\<close>

text \<open>The variable-length integer encoder \<open>varlen_encode\<close> is the parameter \<open>venc\<close>, the
  length-prefixed serialiser \<open>ser_string\<close> of the dark module the parameter \<open>ser\<close>.
  The input loop carries the data built so far and the split point, overwritten by each
  input; the output loop carries the data.\<close>

fun assemble_inputs :: "varlen_encoder \<Rightarrow> Input list \<Rightarrow> bytes \<times> nat option \<Rightarrow> error + (bytes \<times> nat option)" where
  "assemble_inputs venc [] st = Inr st"
| "assemble_inputs venc (i # rest) (data, split_point) =
     (case pack_L (prevout_idx i) of Inl e \<Rightarrow> Inl e | Inr idx \<Rightarrow>
      case venc (length (script_sig i)) of Inl e \<Rightarrow> Inl e | Inr ln \<Rightarrow>
      case pack_L (seqno i) of Inl e \<Rightarrow> Inl e | Inr sq \<Rightarrow>
        (let data1 = data @ prevout_hash i @ idx @ ln @ script_sig i
         in assemble_inputs venc rest (data1 @ sq, Some (length data1))))"

fun assemble_outputs :: "varlen_encoder \<Rightarrow> Output list \<Rightarrow> bytes \<Rightarrow> error + bytes" where
  "assemble_outputs venc [] data = Inr data"
| "assemble_outputs venc (out # rest) data =
     (case pack_Q (amount out) of Inl e \<Rightarrow> Inl e | Inr amt \<Rightarrow>
      case venc (length (script_pub_key out)) of Inl e \<Rightarrow> Inl e | Inr ln \<Rightarrow>
        assemble_outputs venc rest (data @ amt @ ln @ script_pub_key out))"

text \<open>What \<open>assemble\<close> returns: the buffer, or with \<open>split=True\<close> the pair
  \<open>(data[:split_point], data[split_point:])\<close>. A slice bound of \<open>None\<close> is no bound.\<close>

datatype assembled = Whole bytes | Halves bytes bytes

fun slice_to :: "nat option \<Rightarrow> bytes \<Rightarrow> bytes" where
  "slice_to None data = data"
| "slice_to (Some k) data = take k data"

fun slice_from :: "nat option \<Rightarrow> bytes \<Rightarrow> bytes" where
  "slice_from None data = data"
| "slice_from (Some k) data = drop k data"

definition default_version :: "Transaction \<Rightarrow> int" where
  "default_version t = (if transaction_message t \<noteq> None then 2 else 1)"

definition assemble ::
  "varlen_encoder \<Rightarrow> (bytes \<Rightarrow> bytes) \<Rightarrow> bool \<Rightarrow> Transaction \<Rightarrow> error + (assembled \<times> Transaction)" where
  "assemble venc ser split t =
     (let ver = (case version t of None \<Rightarrow> default_version t | Some v \<Rightarrow> v);
          t1 = t\<lparr>version := Some ver\<rparr>
      in bind_result (pack_L ver) (\<lambda>data0.
         bind_result (case n_time t1 of None \<Rightarrow> Inr data0
                      | Some nt \<Rightarrow> bind_result (pack_i nt) (\<lambda>b. Inr (data0 @ b))) (\<lambda>data1.
         bind_result (venc (length (inputs t1))) (\<lambda>ic.
         bind_result (assemble_inputs venc (inputs t1) (data1 @ ic, None)) (\<lambda>(data2, split_point).
         bind_result (venc (length (outputs t1))) (\<lambda>oc.
         bind_result (assemble_outputs venc (outputs t1) (data2 @ oc)) (\<lambda>data3.
         bind_result (pack_L (locktime t1)) (\<lambda>lt.
           let data4 = data3 @ lt;
               data = (case transaction_message t1 of None \<Rightarrow> data4 | Some m \<Rightarrow> data4 @ ser m);
               t2 = t1\<lparr>priv_raw := Some data, priv_hash := None\<rparr>
           in if split then Inr (Halves (slice_to split_point data) (slice_from split_point data), t2)
              else Inr (Whole data, t2)))))))))"

subsection \<open>raw and the hash properties\<close>

text \<open>The \<open>raw\<close> property assembles when no buffer is stored and returns the stored
  buffer.\<close>

definition raw :: "varlen_encoder \<Rightarrow> (bytes \<Rightarrow> bytes) \<Rightarrow> Transaction \<Rightarrow> error + (bytes option \<times> Transaction)" where
  "raw venc ser t =
     (case priv_raw t of
        None \<Rightarrow> bind_result (assemble venc ser False t) (\<lambda>(_, t'). Inr (priv_raw t', t'))
      | Some r \<Rightarrow> Inr (Some r, t))"

text \<open>The digest \<open>sha256(x).digest()\<close> of hashlib is the parameter \<open>sha256\<close>; hashing
  \<open>None\<close> is a \<open>TypeError\<close>. The \<open>hash\<close> property reads the stored buffer, fills the
  cache when it is empty, and returns the cached value.\<close>

definition hash :: "(bytes \<Rightarrow> bytes) \<Rightarrow> Transaction \<Rightarrow> error + (bytes \<times> Transaction)" where
  "hash sha256 t =
     (case priv_hash t of
        None \<Rightarrow> (case priv_raw t of
                   None \<Rightarrow> Inl TypeError
                 | Some r \<Rightarrow> (let h = rev (sha256 (sha256 r))
                              in Inr (h, t\<lparr>priv_hash := Some h\<rparr>)))
      | Some h \<Rightarrow> Inr (h, t))"

text \<open>\<open>binascii.hexlify\<close>: two lower-case hexadecimal digits for each byte.\<close>

definition hexdigit :: "nat \<Rightarrow> char" where
  "hexdigit n = ''0123456789abcdef'' ! n"

definition hexlify :: "bytes \<Rightarrow> string" where
  "hexlify b = concat (map (\<lambda>x. [hexdigit (unat x div 16), hexdigit (unat x mod 16)]) b)"

definition behash :: "(bytes \<Rightarrow> bytes) \<Rightarrow> Transaction \<Rightarrow> error + (bytes \<times> Transaction)" where
  "behash sha256 t = bind_result (hash sha256 t) (\<lambda>(h, t'). Inr (rev h, t'))"

definition lehexhash :: "(bytes \<Rightarrow> bytes) \<Rightarrow> Transaction \<Rightarrow> error + (string \<times> Transaction)" where
  "lehexhash sha256 t = bind_result (hash sha256 t) (\<lambda>(h, t'). Inr (hexlify h, t'))"

definition behexhash :: "(bytes \<Rightarrow> bytes) \<Rightarrow> Transaction \<Rightarrow> error + (string \<times> Transaction)" where
  "behexhash sha256 t = bind_result (hash sha256 t) (\<lambda>(h, t'). Inr (hexlify (rev h), t'))"

section \<open>An instance of the collaborators\<close>

text \<open>Modelled from the spec: \<open>BitcoinEncoding.varlen_encode\<close> and \<open>varlen_decode\<close> are
  declared outside this module. The spec describes a self-describing integer encoding whose
  byte width depends on magnitude, bit-exact with the reference protocol, and encodes the
  counts 0, 1 and 2 as the single bytes \<open>00\<close>, \<open>01\<close>, \<open>02\<close>. This is the reference
  protocol's encoding: one byte below \<open>0xfd\<close>, otherwise a marker byte \<open>0xfd\<close>, \<open>0xfe\<close>
  or \<open>0xff\<close> followed by 2, 4 or 8 little-endian bytes. The theorems below hold for every
  encoder and decoder that meet the stated contracts; this instance shows the contracts
  can be met and supplies concrete inputs.\<close>

definition varlen_encode :: varlen_encoder where
  "varlen_encode n =
     (if n < 0xfd then Inr [of_nat n]
      else if n \<le> 0xffff then Inr (0xfd # le_bytes 2 (int n))
      else if n \<le> 0xffffffff then Inr (0xfe # le_bytes 4 (int n))
      else if n < 2 ^ 64 then Inr (0xff # le_bytes 8 (int n))
      else Inl StructError)"

definition varlen_decode :: varlen_decoder where
  "varlen_decode b =
     (case b of
        [] \<Rightarrow> Inl StructError
      | fb # rest \<Rightarrow>
          (let w = (if fb < 0xfd then 0 else if fb = 0xfd then 2 else if fb = 0xfe then 4 else 8)
           in if w = 0 then Inr (unat fb, rest)
              else if length rest < w then Inl StructError
              else Inr (nat (le_int (take w rest)), drop w rest)))"

text \<open>A stand-in for the digest, of the right output length, to instantiate the theorems
  that are stated for every digest function.\<close>

definition sample_digest :: "bytes \<Rightarrow> bytes" where
  "sample_digest b = take 32 (b @ replicate 32 0)"

text \<open>A stand-in for the length-prefixed serialiser.\<close>

definition sample_ser_string :: "bytes \<Rightarrow> bytes" where
  "sample_ser_string m = of_nat (length m) # m"

section \<open>Contracts of the collaborators and the cache invariant\<close>

text \<open>What the transaction codec needs from the variable-length integer codec: decoding
  an encoded value followed by any data gives the value and that data back.\<close>

definition varlen_roundtrip :: "varlen_encoder \<Rightarrow> varlen_decoder \<Rightarrow> bool" where
  "varlen_roundtrip venc vdec =
     (\<forall>n b rest. venc n = Inr b \<longrightarrow> vdec (b @ rest) = Inr (n, rest))"

text \<open>The decoder reads a prefix of its buffer and returns the rest; what it returns depends
  on that prefix only.\<close>

definition varlen_reads_prefix :: "varlen_decoder \<Rightarrow> bool" where
  "varlen_reads_prefix vdec =
     (\<forall>b n rest. vdec b = Inr (n, rest) \<longrightarrow>
        (\<exists>p. b = p @ rest \<and> (\<forall>e. vdec (p @ e) = Inr (n, e))))"

text \<open>The hash cache is empty, or it holds the reversed double digest of the stored
  buffer. The constructor, \<open>assemble\<close>, a completed \<open>disassemble\<close> and \<open>hash\<close> itself
  keep it so; assignments to the public fields do not touch either slot.\<close>

definition hash_cache_ok :: "(bytes \<Rightarrow> bytes) \<Rightarrow> Transaction \<Rightarrow> bool" where
  "hash_cache_ok sha256 t =
     (case priv_hash t of
        None \<Rightarrow> True
      | Some h \<Rightarrow> (case priv_raw t of None \<Rightarrow> False | Some r \<Rightarrow> h = rev (sha256 (sha256 r))))"

section \<open>Sample transactions\<close>

text \<open>The coinbase scenario of the spec: one input with the null previous hash, index
  \<open>0xffffffff\<close>, script \<open>51 00\<close> and sequence \<open>0xffffffff\<close>; one output of amount 0
  with an empty script.\<close>

definition coinbase_input :: Input where
  "coinbase_input = \<lparr>prevout_hash = replicate 32 0, prevout_idx = 0xffffffff,
     script_sig = [0x51, 0x00], seqno = 0xffffffff\<rparr>"

definition empty_output :: Output where
  "empty_output = \<lparr>amount = 0, script_pub_key = []\<rparr>"

text \<open>\<open>Transaction()\<close>, and the same after the caller has filled in the coinbase input
  and the output.\<close>

definition fresh_tx :: Transaction where
  "fresh_tx = \<lparr>priv_raw = None, inputs = [], outputs = [], locktime = 0,
     n_time = None, fees = None, version = None, priv_hash = None,
     transaction_message = None\<rparr>"

definition coinbase_tx :: Transaction where
  "coinbase_tx = fresh_tx\<lparr>inputs := [coinbase_input], outputs := [empty_output]\<rparr>"

text \<open>\<open>Transaction(pos=True)\<close> and \<open>Transaction(messages=True)\<close>.\<close>

definition pos_tx :: Transaction where
  "pos_tx = fresh_tx\<lparr>n_time := Some 0\<rparr>"

definition message_tx :: Transaction where
  "message_tx = fresh_tx\<lparr>transaction_message := Some []\<rparr>"

text \<open>The buffer of the coinbase scenario.\<close>

definition coinbase_raw :: bytes where
  "coinbase_raw = [1, 0, 0, 0, 1] @ replicate 32 0 @ [0xff, 0xff, 0xff, 0xff, 2, 0x51, 0,
     0xff, 0xff, 0xff, 0xff, 1] @ replicate 8 0 @ [0, 0, 0, 0, 0]"

text \<open>The coinbase transaction after \<open>assemble\<close>.\<close>

definition assembled_coinbase_tx :: Transaction where
  "assembled_coinbase_tx = coinbase_tx\<lparr>version := Some 1, priv_raw := Some coinbase_raw\<rparr>"

text \<open>The integer fields fit their wire widths and the lengths fit the widest
  variable-length encoding: what \<open>assemble\<close> needs to succeed.\<close>

definition fits_wire :: "Transaction \<Rightarrow> bool" where
  "fits_wire t =
     ((case version t of None \<Rightarrow> True | Some v \<Rightarrow> 0 \<le> v \<and> v < 2 ^ 32) \<and>
      (case n_time t of None \<Rightarrow> True | Some n \<Rightarrow> - (2 ^ 31) \<le> n \<and> n < 2 ^ 31) \<and>
      length (inputs t) < 2 ^ 64 \<and>
      (\<forall>i \<in> set (inputs t). 0 \<le> prevout_idx i \<and> prevout_idx i < 2 ^ 32 \<and>
         0 \<le> seqno i \<and> seqno i < 2 ^ 32 \<and> length (script_sig i) < 2 ^ 64) \<and>
      length (outputs t) < 2 ^ 64 \<and>
      (\<forall>out \<in> set (outputs t). 0 \<le> amount out \<and> amount out < 2 ^ 64 \<and>
         length (script_pub_key out) < 2 ^ 64) \<and>
      0 \<le> locktime t \<and> locktime t < 2 ^ 32)"

section \<open>Facts about the fixed-width codecs\<close>

lemma le_bytes_numeral [simp]:
  "le_bytes (numeral k) v = word_of_int v # le_bytes (pred_numeral k) (v div 256)"
  by (simp add: numeral_eq_Suc)

lemma length_le_bytes [simp]: "length (le_bytes n v) = n"
  by (induction n arbitrary: v) simp_all

lemma le_int_le_bytes: "le_int (le_bytes n v) = v mod 256 ^ n"
proof (induction n arbitrary: v)
  case 0
  show ?case by simp
next
  case (Suc n)
  have "le_int (le_bytes (Suc n) v) = v mod 256 + 256 * ((v div 256) mod 256 ^ n)"
    by (simp add: Suc uint_word_of_int)
  also have "\<dots> = v mod 256 ^ Suc n"
    using zmod_zmult2_eq [of "256 ^ n" v 256] by simp
  finally show ?case .
qed

section \<open>The claims\<close>

text \<open>C5. For a transaction with at least one input, \<open>is_coinbase\<close> is true exactly when
  the first input's \<open>prevout_hash\<close> is the 32 zero bytes; changing that input's
  \<open>prevout_idx\<close> or the other inputs does not change the result.\<close>

theorem is_coinbase_first_input:
  "inputs t = i # rest \<Longrightarrow>
     is_coinbase t = Inr (prevout_hash i = replicate 32 0) \<and>
     is_coinbase (t\<lparr>inputs := i\<lparr>prevout_idx := k\<rparr> # rest'\<rparr>) = is_coinbase t"
  by (simp add: is_coinbase_def nullprev_def)

theorem is_coinbase_first_input_witness:
  "inputs coinbase_tx = coinbase_input # [] \<and>
   is_coinbase coinbase_tx = Inr True \<and>
   is_coinbase (coinbase_tx\<lparr>inputs := coinbase_input\<lparr>prevout_idx := 7\<rparr> #
      [coinbase_input\<lparr>prevout_hash := replicate 32 1\<rparr>]\<rparr>) = Inr True"
proof -
  have h: "inputs coinbase_tx = coinbase_input # []"
    by (simp add: coinbase_tx_def)
  show ?thesis
    using h is_coinbase_first_input [OF h, of 7 "[coinbase_input\<lparr>prevout_hash := replicate 32 1\<rparr>]"]
    by (simp add: coinbase_input_def)
qed

text \<open>C10. \<open>is_coinbase\<close> indexes the first input without a check: on a transaction with
  no inputs it raises \<open>IndexError\<close>, it does not return false.\<close>

theorem is_coinbase_no_inputs:
  "inputs t = [] \<Longrightarrow> is_coinbase t = Inl IndexError"
  by (simp add: is_coinbase_def)

theorem is_coinbase_no_inputs_witness:
  "inputs fresh_tx = [] \<and> is_coinbase fresh_tx = Inl IndexError"
proof -
  have h: "inputs fresh_tx = []" by (simp add: fresh_tx_def)
  show ?thesis using h is_coinbase_no_inputs [OF h] by simp
qed

text \<open>C8. When the address decodes to a 20-byte hash \<open>h\<close>, \<open>Output.to_address\<close> returns
  the given amount and the script \<open>76 a9 14 h 88 ac\<close>.\<close>

theorem to_address_script:
  "address_bytes address = Inr h \<Longrightarrow> length h = 20 \<Longrightarrow>
     to_address address_bytes amt address =
       Inr \<lparr>amount = amt, script_pub_key = 0x76 # 0xa9 # 0x14 # h @ [0x88, 0xac]\<rparr>"
  by (simp add: to_address_def bind_result_def)

theorem to_address_script_witness:
  "(\<lambda>a. Inr (replicate 20 (0x11 :: byte)) :: error + bytes) ''addr'' = Inr (replicate 20 0x11) \<and>
   length (replicate 20 (0x11 :: byte)) = 20 \<and>
   to_address (\<lambda>a. Inr (replicate 20 0x11)) 5000000000 ''addr'' =
     Inr \<lparr>amount = 5000000000,
          script_pub_key = 0x76 # 0xa9 # 0x14 # replicate 20 0x11 @ [0x88, 0xac]\<rparr>"
  using to_address_script [of "\<lambda>a. Inr (replicate 20 0x11)" "''addr''" "replicate 20 0x11" 5000000000]
  by simp

text \<open>C9. An empty byte string given as \<open>raw\<close> is treated as no raw data: the constructor
  behaves as with \<open>None\<close> (it returns a transaction with no stored buffer and raises no
  \<open>AttributeError\<close>), and \<open>disassemble(raw=b'')\<close> behaves as \<open>disassemble()\<close>: it keeps
  the stored buffer and parses it.\<close>

theorem empty_raw_is_no_raw:
  "Transaction_init vdec (RawBytes []) fs dis pos messages =
     Transaction_init vdec RawNone fs dis pos messages \<and>
   (\<exists>t. Transaction_init vdec (RawBytes []) fs False pos messages = Inr t \<and> priv_raw t = None) \<and>
   disassemble vdec (Some []) dump fs' t = disassemble vdec None dump fs' t \<and>
   disassemble vdec (Some []) dump fs' (t\<lparr>priv_raw := Some r\<rparr>) =
     disassemble vdec (Some r) dump fs' (t\<lparr>priv_raw := Some r\<rparr>)"
proof -
  have a: "Transaction_init vdec (RawBytes []) fs dis pos messages =
     Transaction_init vdec RawNone fs dis pos messages"
    by (simp add: Transaction_init_def)
  have b: "\<exists>t. Transaction_init vdec (RawBytes []) fs False pos messages = Inr t \<and> priv_raw t = None"
    by (simp add: Transaction_init_def bind_result_def)
  have c: "disassemble vdec (Some []) dump fs' t = disassemble vdec None dump fs' t"
    by (simp add: disassemble_def)
  have d: "disassemble vdec (Some []) dump fs' (t\<lparr>priv_raw := Some r\<rparr>) =
     disassemble vdec (Some r) dump fs' (t\<lparr>priv_raw := Some r\<rparr>)"
    by (cases "r = []")
      (simp_all add: disassemble_def Let_def split: option.splits cong del: if_weak_cong)
  from a b c d show ?thesis by blast
qed

section \<open>The hash cache\<close>

lemma hash_cache_ok_init:
  "Transaction_init vdec rawarg fs dis pos messages = Inr t \<Longrightarrow> hash_cache_ok sha256 t"
  by (auto simp add: Transaction_init_def disassemble_def bind_result_def hash_cache_ok_def Let_def
      split: if_splits sum.splits raw_arg.splits option.splits prod.splits)

lemma hash_cache_ok_assemble:
  "assemble venc ser split t = Inr (res, t') \<Longrightarrow> hash_cache_ok sha256 t'"
  by (auto simp add: assemble_def bind_result_def hash_cache_ok_def Let_def
      split: if_splits sum.splits option.splits prod.splits)

lemma hash_cache_ok_disassemble:
  "disassemble vdec rawarg dump fs t = Inr t' \<Longrightarrow> hash_cache_ok sha256 t'"
  by (auto simp add: disassemble_def bind_result_def hash_cache_ok_def Let_def
      split: if_splits sum.splits option.splits prod.splits)

lemma hash_cache_ok_hash:
  "hash_cache_ok sha256 t \<Longrightarrow> hash sha256 t = Inr (h, t') \<Longrightarrow> hash_cache_ok sha256 t'"
  by (auto simp add: hash_def hash_cache_ok_def Let_def split: option.splits)

lemma hash_cache_ok_public_fields:
  "hash_cache_ok sha256 t \<Longrightarrow>
     hash_cache_ok sha256 (t\<lparr>inputs := ins, outputs := outs, locktime := lt, n_time := nt,
       fees := fs, version := ver, transaction_message := msg\<rparr>)"
  by (simp add: hash_cache_ok_def split: option.splits)

lemma assemble_coinbase_tx:
  "assemble varlen_encode ser False coinbase_tx = Inr (Whole coinbase_raw, assembled_coinbase_tx)"
  unfolding assembled_coinbase_tx_def by code_simp

text \<open>C7. With a raw buffer stored (and the cache empty or up to date), \<open>hash\<close> is the
  reversed double digest of the whole buffer, \<open>behash\<close> is the reverse of \<open>hash\<close>, and
  \<open>lehexhash\<close> and \<open>behexhash\<close> are the hex encodings of \<open>hash\<close> and \<open>behash\<close>.\<close>

theorem hash_is_reversed_double_digest:
  "priv_raw t = Some r \<Longrightarrow> hash_cache_ok sha256 t \<Longrightarrow>
     (\<exists>h t'. h = rev (sha256 (sha256 r)) \<and> priv_raw t' = Some r \<and>
        hash sha256 t = Inr (h, t') \<and>
        behash sha256 t = Inr (rev h, t') \<and>
        lehexhash sha256 t = Inr (hexlify h, t') \<and>
        behexhash sha256 t = Inr (hexlify (rev h), t'))"
  by (cases "priv_hash t")
    (auto simp add: hash_def behash_def lehexhash_def behexhash_def hash_cache_ok_def
      bind_result_def Let_def)

theorem hash_is_reversed_double_digest_witness:
  "priv_raw assembled_coinbase_tx = Some coinbase_raw \<and>
   hash_cache_ok sample_digest assembled_coinbase_tx \<and>
   (\<exists>h t'. h = rev (sample_digest (sample_digest coinbase_raw)) \<and>
      priv_raw t' = Some coinbase_raw \<and>
      hash sample_digest assembled_coinbase_tx = Inr (h, t') \<and>
      behash sample_digest assembled_coinbase_tx = Inr (rev h, t') \<and>
      lehexhash sample_digest assembled_coinbase_tx = Inr (hexlify h, t') \<and>
      behexhash sample_digest assembled_coinbase_tx = Inr (hexlify (rev h), t'))"
proof -
  have r: "priv_raw assembled_coinbase_tx = Some coinbase_raw"
    by (simp add: assembled_coinbase_tx_def)
  have c: "hash_cache_ok sample_digest assembled_coinbase_tx"
    by (simp add: hash_cache_ok_def assembled_coinbase_tx_def coinbase_tx_def fresh_tx_def)
  from hash_is_reversed_double_digest [OF r c] r c show ?thesis by blast
qed

text \<open>C2. The \<open>hash\<close> property reads the stored buffer directly and never assembles: on
  the coinbase transaction built in memory, with no buffer stored, it raises \<open>TypeError\<close>,
  while the \<open>raw\<close> property on the same object assembles and returns the buffer.\<close>

theorem hash_without_raw_fails:
  "hash sha256 coinbase_tx = Inl TypeError \<and>
   raw varlen_encode ser coinbase_tx = Inr (Some coinbase_raw, assembled_coinbase_tx)"
proof -
  have n: "priv_raw coinbase_tx = None" "priv_hash coinbase_tx = None"
    by (simp_all add: coinbase_tx_def fresh_tx_def)
  have "hash sha256 coinbase_tx = Inl TypeError"
    by (simp add: hash_def n)
  moreover have "raw varlen_encode ser coinbase_tx = Inr (Some coinbase_raw, assembled_coinbase_tx)"
    by (simp add: raw_def n assemble_coinbase_tx bind_result_def assembled_coinbase_tx_def)
  ultimately show ?thesis by simp
qed

section \<open>The serialiser\<close>

lemma assemble_outputs_append:
  "assemble_outputs venc outs d = bind_result (assemble_outputs venc outs []) (\<lambda>ob. Inr (d @ ob))"
proof (induction outs arbitrary: d)
  case Nil
  show ?case by (simp add: bind_result_def)
next
  case (Cons out rest)
  show ?case
  proof (cases "pack_Q (amount out)")
    case Inl
    then show ?thesis by (simp add: bind_result_def)
  next
    case (Inr amt)
    show ?thesis
    proof (cases "venc (length (script_pub_key out))")
      case Inl
      with Inr show ?thesis by (simp add: bind_result_def)
    next
      case ln: (Inr ln)
      let ?x = "amt @ ln @ script_pub_key out"
      have a: "assemble_outputs venc (out # rest) d =
          bind_result (assemble_outputs venc rest []) (\<lambda>ob. Inr ((d @ ?x) @ ob))"
        using Cons.IH [of "d @ ?x"] Inr ln by simp
      have b: "assemble_outputs venc (out # rest) [] =
          bind_result (assemble_outputs venc rest []) (\<lambda>ob. Inr (?x @ ob))"
        using Cons.IH [of ?x] Inr ln by simp
      show ?thesis
        unfolding a b by (simp add: bind_result_def split: sum.splits)
    qed
  qed
qed

lemma assemble_inputs_last:
  "assemble_inputs venc ins (d, sp) = Inr (d', sp') \<Longrightarrow> ins \<noteq> [] \<Longrightarrow>
     \<exists>pre sq. pack_L (seqno (last ins)) = Inr sq \<and>
       d' = pre @ script_sig (last ins) @ sq \<and>
       sp' = Some (length (pre @ script_sig (last ins)))"
proof (induction ins arbitrary: d sp)
  case Nil
  then show ?case by simp
next
  case (Cons i rest)
  show ?case
  proof (cases "rest = []")
    case True
    with Cons.prems show ?thesis
      by (auto simp add: Let_def split: sum.splits)
  next
    case False
    with Cons.prems Cons.IH show ?thesis
      by (auto simp add: Let_def split: sum.splits)
  qed
qed


lemma pack_L_length: "pack_L v = Inr b \<Longrightarrow> length b = 4"
  by (auto simp add: pack_L_def split: if_splits)

text \<open>C4 (amended). For a transaction with at least one input on which \<open>assemble\<close>
  succeeds, the two segments of \<open>assemble(split=True)\<close> concatenate to the buffer of
  \<open>assemble(split=False)\<close>; the first ends with the last input's \<open>script_sig\<close>, the
  second is that input's 4-byte sequence number followed by the output count, the outputs,
  the lock time and the message.\<close>

theorem assemble_split_halves:
  assumes ne: "inputs t \<noteq> []"
    and asm: "assemble venc ser False t = Inr (Whole data, t')"
  shows "\<exists>a b pre sq oc ob lt.
     assemble venc ser True t = Inr (Halves a b, t') \<and> a @ b = data \<and>
     a = pre @ script_sig (last (inputs t)) \<and>
     pack_L (seqno (last (inputs t))) = Inr sq \<and>
     venc (length (outputs t)) = Inr oc \<and>
     assemble_outputs venc (outputs t) [] = Inr ob \<and>
     pack_L (locktime t) = Inr lt \<and>
     b = sq @ oc @ ob @ lt @ (case transaction_message t of None \<Rightarrow> [] | Some m \<Rightarrow> ser m)"
proof -
  define ver where "ver = (case version t of None \<Rightarrow> default_version t | Some v \<Rightarrow> v)"
  define msg where "msg = (case transaction_message t of None \<Rightarrow> [] | Some m \<Rightarrow> ser m)"
  from asm obtain data0 data1 ic data2 sp oc data3 lt where
    p0: "pack_L ver = Inr data0"
    and p1: "(case n_time t of None \<Rightarrow> Inr data0
              | Some nt \<Rightarrow> bind_result (pack_i nt) (\<lambda>b. Inr (data0 @ b))) = Inr data1"
    and p2: "venc (length (inputs t)) = Inr ic"
    and p3: "assemble_inputs venc (inputs t) (data1 @ ic, None) = Inr (data2, sp)"
    and p4: "venc (length (outputs t)) = Inr oc"
    and p5: "assemble_outputs venc (outputs t) (data2 @ oc) = Inr data3"
    and p6: "pack_L (locktime t) = Inr lt"
    and d: "data = data3 @ lt @ msg"
    and t': "t' = t\<lparr>version := Some ver, priv_raw := Some data, priv_hash := None\<rparr>"
    unfolding assemble_def ver_def msg_def
    by (auto simp add: bind_result_def Let_def split: sum.splits prod.splits option.splits)
  from assemble_inputs_last [OF p3 ne] obtain pre sq where
    sq: "pack_L (seqno (last (inputs t))) = Inr sq"
    and d2: "data2 = pre @ script_sig (last (inputs t)) @ sq"
    and sp: "sp = Some (length (pre @ script_sig (last (inputs t))))"
    by blast
  from p5 obtain ob where ob: "assemble_outputs venc (outputs t) [] = Inr ob"
    and d3: "data3 = data2 @ oc @ ob"
    by (subst (asm) assemble_outputs_append) (auto simp add: bind_result_def split: sum.splits)
  let ?a = "pre @ script_sig (last (inputs t))"
  let ?b = "sq @ oc @ ob @ lt @ msg"
  have data: "data = ?a @ ?b"
    by (simp add: d d3 d2)
  have "assemble venc ser True t = Inr (Halves (slice_to sp data) (slice_from sp data), t')"
    using p0 p1 p2 p3 p4 p5 p6 d t'
    unfolding assemble_def ver_def [symmetric]
    by (simp add: bind_result_def Let_def msg_def split: option.splits)
  moreover have "slice_to sp data = ?a" "slice_from sp data = ?b"
    by (simp_all add: sp data)
  ultimately show ?thesis
    using data sq p4 ob p6 unfolding msg_def by auto
qed


theorem assemble_split_halves_witness:
  "inputs coinbase_tx \<noteq> [] \<and>
   assemble varlen_encode sample_ser_string False coinbase_tx =
     Inr (Whole coinbase_raw, assembled_coinbase_tx) \<and>
   (\<exists>a b pre sq oc ob lt.
     assemble varlen_encode sample_ser_string True coinbase_tx =
       Inr (Halves a b, assembled_coinbase_tx) \<and>
     a @ b = coinbase_raw \<and>
     a = pre @ script_sig (last (inputs coinbase_tx)) \<and>
     pack_L (seqno (last (inputs coinbase_tx))) = Inr sq \<and>
     varlen_encode (length (outputs coinbase_tx)) = Inr oc \<and>
     assemble_outputs varlen_encode (outputs coinbase_tx) [] = Inr ob \<and>
     pack_L (locktime coinbase_tx) = Inr lt \<and>
     b = sq @ oc @ ob @ lt @
       (case transaction_message coinbase_tx of None \<Rightarrow> [] | Some m \<Rightarrow> sample_ser_string m))"
proof -
  have ne: "inputs coinbase_tx \<noteq> []"
    by (simp add: coinbase_tx_def)
  have h: "assemble varlen_encode sample_ser_string False coinbase_tx =
     Inr (Whole coinbase_raw, assembled_coinbase_tx)"
    by (rule assemble_coinbase_tx)
  from assemble_split_halves [OF ne h] ne h show ?thesis by blast
qed

text \<open>C4 as stated fails on a transaction with no inputs: the split point stays \<open>None\<close>,
  both slices are the whole buffer, and their concatenation is the buffer twice.\<close>

theorem assemble_split_no_inputs_counterexample:
  "assemble varlen_encode sample_ser_string True fresh_tx =
     Inr (Halves [1, 0, 0, 0, 0, 0, 0, 0, 0, 0] [1, 0, 0, 0, 0, 0, 0, 0, 0, 0],
          fresh_tx\<lparr>version := Some 1, priv_raw := Some [1, 0, 0, 0, 0, 0, 0, 0, 0, 0]\<rparr>) \<and>
   assemble varlen_encode sample_ser_string False fresh_tx =
     Inr (Whole [1, 0, 0, 0, 0, 0, 0, 0, 0, 0],
          fresh_tx\<lparr>version := Some 1, priv_raw := Some [1, 0, 0, 0, 0, 0, 0, 0, 0, 0]\<rparr>) \<and>
   [1, 0, 0, 0, 0, 0, 0, 0, 0, 0] @ [1, 0, 0, 0, 0, 0, 0, 0, 0, 0] \<noteq> [1, 0, 0, 0, 0, 0, 0, 0, 0, 0 :: byte]"
  by code_simp


lemma assemble_inputs_extends:
  "assemble_inputs venc ins (d, sp) = Inr (d', sp') \<Longrightarrow> \<exists>x. d' = d @ x"
proof (induction ins arbitrary: d sp)
  case Nil
  then show ?case by simp
next
  case (Cons i rest)
  from Cons.prems obtain d1 sp1 where
    "assemble_inputs venc rest (d @ d1, sp1) = Inr (d', sp')"
    by (auto simp add: Let_def split: sum.splits)
  from Cons.IH [OF this] show ?case by auto
qed

lemma assemble_Inr_cases:
  assumes "assemble venc ser split t = Inr (res, t')"
  obtains ver data0 data1 ic xi sp oc ob lt data where
    "ver = (case version t of None \<Rightarrow> default_version t | Some v \<Rightarrow> v)"
    "pack_L ver = Inr data0"
    "case n_time t of None \<Rightarrow> data1 = data0
       | Some nt \<Rightarrow> \<exists>b. pack_i nt = Inr b \<and> data1 = data0 @ b"
    "venc (length (inputs t)) = Inr ic"
    "assemble_inputs venc (inputs t) (data1 @ ic, None) = Inr (data1 @ ic @ xi, sp)"
    "venc (length (outputs t)) = Inr oc"
    "assemble_outputs venc (outputs t) [] = Inr ob"
    "pack_L (locktime t) = Inr lt"
    "data = data1 @ ic @ xi @ oc @ ob @ lt @
       (case transaction_message t of None \<Rightarrow> [] | Some m \<Rightarrow> ser m)"
    "t' = t\<lparr>version := Some ver, priv_raw := Some data, priv_hash := None\<rparr>"
    "res = (if split then Halves (slice_to sp data) (slice_from sp data) else Whole data)"
proof -
  define ver where "ver = (case version t of None \<Rightarrow> default_version t | Some v \<Rightarrow> v)"
  define msg where "msg = (case transaction_message t of None \<Rightarrow> [] | Some m \<Rightarrow> ser m)"
  from assms obtain data0 data1 ic data2 sp oc data3 lt where
    p0: "pack_L ver = Inr data0"
    and p1: "(case n_time t of None \<Rightarrow> Inr data0
              | Some nt \<Rightarrow> bind_result (pack_i nt) (\<lambda>b. Inr (data0 @ b))) = Inr data1"
    and p2: "venc (length (inputs t)) = Inr ic"
    and p3: "assemble_inputs venc (inputs t) (data1 @ ic, None) = Inr (data2, sp)"
    and p4: "venc (length (outputs t)) = Inr oc"
    and p5: "assemble_outputs venc (outputs t) (data2 @ oc) = Inr data3"
    and p6: "pack_L (locktime t) = Inr lt"
    and t': "t' = t\<lparr>version := Some ver, priv_raw := Some (data3 @ lt @ msg), priv_hash := None\<rparr>"
    and res: "res = (if split then Halves (slice_to sp (data3 @ lt @ msg)) (slice_from sp (data3 @ lt @ msg))
                     else Whole (data3 @ lt @ msg))"
    unfolding assemble_def ver_def msg_def
    by (auto simp add: bind_result_def Let_def split: sum.splits prod.splits option.splits if_splits)
  from assemble_inputs_extends [OF p3] obtain xi where d2: "data2 = data1 @ ic @ xi"
    by auto
  from p5 obtain ob where ob: "assemble_outputs venc (outputs t) [] = Inr ob"
    and d3: "data3 = data2 @ oc @ ob"
    by (subst (asm) assemble_outputs_append) (auto simp add: bind_result_def split: sum.splits)
  have p1': "case n_time t of None \<Rightarrow> data1 = data0
       | Some nt \<Rightarrow> \<exists>b. pack_i nt = Inr b \<and> data1 = data0 @ b"
    using p1 by (auto simp add: bind_result_def split: option.splits sum.splits)
  show thesis
    by (rule that [of ver data0 data1 ic xi sp oc ob lt "data3 @ lt @ msg"])
      (use p0 p1' p2 p3 p4 ob p6 t' res d2 d3 in \<open>simp_all add: ver_def msg_def\<close>)
qed

text \<open>C6. When \<open>version\<close> is unset, \<open>assemble\<close> sets it to 2 if the message field is
  enabled (not \<open>None\<close>, also when empty) and to 1 otherwise, and the buffer starts with
  that value in 4 little-endian bytes; a version set before is kept and serialised; the
  constructor (without \<open>disassemble\<close>) leaves the version unset.\<close>

theorem assemble_default_version:
  assumes asm: "assemble venc ser split t = Inr (res, t')"
  shows "(\<exists>data. priv_raw t' = Some data \<and>
        (version t = None \<longrightarrow>
           version t' = Some (if transaction_message t \<noteq> None then 2 else 1) \<and>
           take 4 data = le_bytes 4 (if transaction_message t \<noteq> None then 2 else 1)) \<and>
        (\<forall>v. version t = Some v \<longrightarrow> version t' = Some v \<and> take 4 data = le_bytes 4 v)) \<and>
     (\<forall>t0. Transaction_init vdec rawarg fs False pos messages = Inr t0 \<longrightarrow> version t0 = None)"
proof -
  from asm obtain ver data0 data1 rest where
    ver: "ver = (case version t of None \<Rightarrow> default_version t | Some v \<Rightarrow> v)"
    and p0: "pack_L ver = Inr data0"
    and p1: "case n_time t of None \<Rightarrow> data1 = data0
       | Some nt \<Rightarrow> \<exists>b. pack_i nt = Inr b \<and> data1 = data0 @ b"
    and t': "t' = t\<lparr>version := Some ver, priv_raw := Some (data1 @ rest), priv_hash := None\<rparr>"
    by (rule assemble_Inr_cases) blast
  from p1 obtain b where d1: "data1 = data0 @ b"
    by (auto split: option.splits)
  from p0 have d0: "data0 = le_bytes 4 ver"
    by (auto simp add: pack_L_def split: if_splits)
  have tk: "take 4 (data1 @ rest) = le_bytes 4 ver"
    unfolding d1 d0 by (simp del: le_bytes_numeral)
  have a: "\<exists>data. priv_raw t' = Some data \<and>
        (version t = None \<longrightarrow>
           version t' = Some (if transaction_message t \<noteq> None then 2 else 1) \<and>
           take 4 data = le_bytes 4 (if transaction_message t \<noteq> None then 2 else 1)) \<and>
        (\<forall>v. version t = Some v \<longrightarrow> version t' = Some v \<and> take 4 data = le_bytes 4 v)"
    using tk unfolding t' ver default_version_def
    by (auto simp del: le_bytes_numeral)
  have b: "\<forall>t0. Transaction_init vdec rawarg fs False pos messages = Inr t0 \<longrightarrow> version t0 = None"
    by (auto simp add: Transaction_init_def bind_result_def split: if_splits raw_arg.splits)
  from a b show ?thesis by blast
qed

theorem assemble_default_version_witness:
  "assemble varlen_encode sample_ser_string False message_tx =
     Inr (Whole [2, 0, 0, 0, 0, 0, 0, 0, 0, 0, 0],
          message_tx\<lparr>version := Some 2, priv_raw := Some [2, 0, 0, 0, 0, 0, 0, 0, 0, 0, 0]\<rparr>) \<and>
   version message_tx = None \<and> transaction_message message_tx = Some [] \<and>
   version (message_tx\<lparr>version := Some 2, priv_raw := Some [2, 0, 0, 0, 0, 0, 0, 0, 0, 0, 0]\<rparr>) = Some 2 \<and>
   take 4 [2, 0, 0, 0, 0, 0, 0, 0, 0, 0, 0 :: byte] = le_bytes 4 2 \<and>
   Transaction_init varlen_decode RawNone None False False True = Inr message_tx \<and>
   version message_tx = None"
proof -
  have h: "assemble varlen_encode sample_ser_string False message_tx =
     Inr (Whole [2, 0, 0, 0, 0, 0, 0, 0, 0, 0, 0],
          message_tx\<lparr>version := Some 2, priv_raw := Some [2, 0, 0, 0, 0, 0, 0, 0, 0, 0, 0]\<rparr>)"
    by code_simp
  have i: "Transaction_init varlen_decode RawNone None False False True = Inr message_tx"
    by code_simp
  have m: "version message_tx = None" "transaction_message message_tx = Some []"
    by (simp_all add: message_tx_def fresh_tx_def)
  from assemble_default_version [OF h, of varlen_decode RawNone None False True] h i m
  show ?thesis by simp
qed

section \<open>The variable-length codec instance meets the contracts\<close>

lemma varlen_decode_marker:
  "w \<le> length r \<Longrightarrow> fb \<ge> 0xfd \<Longrightarrow>
   w = (if fb = 0xfd then 2 else if fb = 0xfe then 4 else 8) \<Longrightarrow>
   varlen_decode (fb # r) = Inr (nat (le_int (take w r)), drop w r)"
  by (auto simp add: varlen_decode_def Let_def not_less)

lemma varlen_decode_small:
  "fb < 0xfd \<Longrightarrow> varlen_decode (fb # r) = Inr (unat fb, r)"
  by (simp add: varlen_decode_def)

lemma varlen_roundtrip_instance: "varlen_roundtrip varlen_encode varlen_decode"
  unfolding varlen_roundtrip_def
proof (intro allI impI)
  fix n b rest
  assume enc: "varlen_encode n = Inr b"
  consider "n < 0xfd" | "0xfd \<le> n" "n \<le> 0xffff" | "0xffff < n" "n \<le> 0xffffffff"
    | "0xffffffff < n" "n < 2 ^ 64" | "2 ^ 64 \<le> n"
    by linarith
  then show "varlen_decode (b @ rest) = Inr (n, rest)"
  proof cases
    case 1
    then have b: "b = [of_nat n]"
      using enc by (simp add: varlen_encode_def)
    from 1 have u: "unat (of_nat n :: byte) = n"
      by (simp add: unat_of_nat)
    then have "(of_nat n :: byte) < 0xfd"
      using 1 by (simp add: word_less_nat_alt)
    then show ?thesis
      using u by (simp add: b varlen_decode_small)
  next
    case 2
    then have b: "b = 0xfd # le_bytes 2 (int n)"
      using enc by (simp add: varlen_encode_def del: le_bytes_numeral)
    have "int n mod 256 ^ 2 = int n"
      using 2 by simp
    then show ?thesis
      unfolding b using varlen_decode_marker [of 2 "le_bytes 2 (int n) @ rest" "0xfd"]
      by (simp add: le_int_le_bytes del: le_bytes_numeral)
  next
    case 3
    then have b: "b = 0xfe # le_bytes 4 (int n)"
      using enc by (simp add: varlen_encode_def del: le_bytes_numeral)
    have "int n mod 256 ^ 4 = int n"
      using 3 by simp
    then show ?thesis
      unfolding b using varlen_decode_marker [of 4 "le_bytes 4 (int n) @ rest" "0xfe"]
      by (simp add: le_int_le_bytes del: le_bytes_numeral)
  next
    case 4
    then have b: "b = 0xff # le_bytes 8 (int n)"
      using enc by (simp add: varlen_encode_def del: le_bytes_numeral)
    have "int n mod 256 ^ 8 = int n"
      using 4 by simp
    then show ?thesis
      unfolding b using varlen_decode_marker [of 8 "le_bytes 8 (int n) @ rest" "0xff"]
      by (simp add: le_int_le_bytes del: le_bytes_numeral)
  next
    case 5
    then show ?thesis
      using enc by (simp add: varlen_encode_def)
  qed
qed

lemma varlen_reads_prefix_instance: "varlen_reads_prefix varlen_decode"
  unfolding varlen_reads_prefix_def
proof (intro allI impI)
  fix b n rest
  assume dec: "varlen_decode b = Inr (n, rest)"
  then obtain fb r where b: "b = fb # r"
    by (cases b) (simp_all add: varlen_decode_def)
  show "\<exists>p. b = p @ rest \<and> (\<forall>e. varlen_decode (p @ e) = Inr (n, e))"
  proof (cases "fb < 0xfd")
    case True
    with dec b have "n = unat fb" "rest = r"
      by (simp_all add: varlen_decode_small)
    with True b show ?thesis
      by (intro exI [of _ "[fb]"]) (simp add: varlen_decode_small)
  next
    case False
    define w :: nat where "w = (if fb = 0xfd then 2 else if fb = 0xfe then 4 else 8)"
    from False have ge: "fb \<ge> 0xfd" by (simp add: not_less)
    from dec b False have len: "w \<le> length r"
      by (auto simp add: varlen_decode_def w_def Let_def split: if_splits)
    from varlen_decode_marker [OF len ge w_def] dec b
    have n: "n = nat (le_int (take w r))" and rest: "rest = drop w r"
      by simp_all
    have "varlen_decode ((fb # take w r) @ e) = Inr (n, e)" for e
      using varlen_decode_marker [of w "take w r @ e" fb] len ge w_def n by simp
    then show ?thesis
      using b rest by (intro exI [of _ "fb # take w r"]) simp
  qed
qed

section \<open>Parsing what the serialiser wrote\<close>

lemma le_int_le_bytes_id: "0 \<le> v \<Longrightarrow> v < 256 ^ n \<Longrightarrow> le_int (le_bytes n v) = v"
  by (simp add: le_int_le_bytes)

lemma funpack_L_pack_L:
  assumes "pack_L v = Inr b"
  shows "funpack_L b = Inr v"
proof -
  have r: "0 \<le> v" "v < 2 ^ 32" and b: "b = le_bytes 4 v"
    using assms by (auto simp add: pack_L_def simp del: le_bytes_numeral split: if_splits)
  have "(2::int) ^ 32 = 256 ^ 4"
    by simp
  with r have "le_int (le_bytes 4 v) = v"
    by (intro le_int_le_bytes_id) simp_all
  then show ?thesis
    unfolding b funpack_L_def by (simp del: le_bytes_numeral)
qed

lemma pack_Q_length: "pack_Q v = Inr b \<Longrightarrow> length b = 8"
  by (auto simp add: pack_Q_def simp del: le_bytes_numeral split: if_splits)

lemma funpack_Q_pack_Q:
  assumes "pack_Q v = Inr b"
  shows "funpack_Q b = Inr v"
proof -
  have r: "0 \<le> v" "v < 2 ^ 64" and b: "b = le_bytes 8 v"
    using assms by (auto simp add: pack_Q_def simp del: le_bytes_numeral split: if_splits)
  have "(2::int) ^ 64 = 256 ^ 8"
    by simp
  with r have "le_int (le_bytes 8 v) = v"
    by (intro le_int_le_bytes_id) simp_all
  then show ?thesis
    unfolding b funpack_Q_def by (simp del: le_bytes_numeral)
qed

lemma parse_assembled_inputs:
  assumes rt: "varlen_roundtrip venc vdec"
  shows "\<forall>i \<in> set ins. length (prevout_hash i) = 32 \<Longrightarrow>
     assemble_inputs venc ins (d, sp) = Inr (d @ x, sp') \<Longrightarrow>
     parse_inputs vdec (length ins) (x @ rest) acc = Inr (acc @ ins, rest)"
proof (induction ins arbitrary: d sp x acc)
  case Nil
  then show ?case by simp
next
  case (Cons i more)
  from Cons.prems(2) obtain idx ln sq where
    idx: "pack_L (prevout_idx i) = Inr idx"
    and ln: "venc (length (script_sig i)) = Inr ln"
    and sq: "pack_L (seqno i) = Inr sq"
    and r: "assemble_inputs venc more
         ((d @ prevout_hash i @ idx @ ln @ script_sig i) @ sq,
          Some (length (d @ prevout_hash i @ idx @ ln @ script_sig i))) = Inr (d @ x, sp')"
    by (auto simp add: Let_def split: sum.splits)
  let ?h = "prevout_hash i @ idx @ ln @ script_sig i @ sq"
  from assemble_inputs_extends [OF r] obtain y where x: "x = ?h @ y"
    by auto
  have ph: "length (prevout_hash i) = 32"
    using Cons.prems(1) by simp
  have li: "length idx = 4" and ls: "length sq = 4"
    using idx sq by (simp_all add: pack_L_length)
  have r': "assemble_inputs venc more (d @ ?h, Some (length (d @ prevout_hash i @ idx @ ln @ script_sig i)))
     = Inr ((d @ ?h) @ y, sp')"
    using r x by simp
  have ih: "parse_inputs vdec (length more) (y @ rest) (acc @ [i]) = Inr ((acc @ [i]) @ more, rest)"
    by (rule Cons.IH [OF _ r']) (use Cons.prems(1) in simp)
  have v: "vdec (ln @ script_sig i @ sq @ y @ rest) = Inr (length (script_sig i), script_sig i @ sq @ y @ rest)"
    using rt ln unfolding varlen_roundtrip_def by blast
  have i: "\<lparr>prevout_hash = prevout_hash i, prevout_idx = prevout_idx i,
            script_sig = script_sig i, seqno = seqno i\<rparr> = i"
    by simp
  show ?case
    using ih
    by (simp add: x ph li ls v i funpack_L_pack_L [OF idx] funpack_L_pack_L [OF sq])
qed

lemma parse_assembled_outputs:
  assumes rt: "varlen_roundtrip venc vdec"
  shows "assemble_outputs venc outs [] = Inr x \<Longrightarrow>
     parse_outputs vdec (length outs) (x @ rest) acc = Inr (acc @ outs, rest)"
proof (induction outs arbitrary: x acc)
  case Nil
  then show ?case by simp
next
  case (Cons out more)
  from Cons.prems obtain amt ln where
    amt: "pack_Q (amount out) = Inr amt"
    and ln: "venc (length (script_pub_key out)) = Inr ln"
    and r: "assemble_outputs venc more (amt @ ln @ script_pub_key out) = Inr x"
    by (auto split: sum.splits)
  from r obtain y where y: "assemble_outputs venc more [] = Inr y"
    and x: "x = amt @ ln @ script_pub_key out @ y"
    by (subst (asm) assemble_outputs_append) (auto simp add: bind_result_def split: sum.splits)
  have la: "length amt = 8"
    using amt by (rule pack_Q_length)
  have v: "vdec (ln @ script_pub_key out @ y @ rest) =
      Inr (length (script_pub_key out), script_pub_key out @ y @ rest)"
    using rt ln unfolding varlen_roundtrip_def by blast
  have o: "\<lparr>amount = amount out, script_pub_key = script_pub_key out\<rparr> = out"
    by simp
  show ?case
    using Cons.IH [OF y, of "acc @ [out]"]
    by (simp add: x la v o funpack_Q_pack_Q [OF amt])
qed

lemma parse_body_assembled:
  assumes rt: "varlen_roundtrip venc vdec"
    and ph: "\<forall>i \<in> set (inputs t). length (prevout_hash i) = 32"
    and p0: "pack_L ver = Inr data0"
    and p2: "venc (length (inputs t)) = Inr ic"
    and p3: "assemble_inputs venc (inputs t) (data1 @ ic, None) = Inr (data1 @ ic @ xi, sp)"
    and p4: "venc (length (outputs t)) = Inr oc"
    and p5: "assemble_outputs venc (outputs t) [] = Inr ob"
    and p6: "pack_L (locktime t) = Inr lt"
    and data: "data = data0 @ ic @ xi @ oc @ ob @ lt"
  shows "parse_body vdec data = Inr (ver, inputs t, outputs t, lt)"
proof -
  have l0: "length data0 = 4" and ll: "length lt = 4"
    using p0 p6 by (simp_all add: pack_L_length)
  have v1: "vdec (ic @ xi @ oc @ ob @ lt) = Inr (length (inputs t), xi @ oc @ ob @ lt)"
    using rt p2 unfolding varlen_roundtrip_def by blast
  have v2: "vdec (oc @ ob @ lt) = Inr (length (outputs t), ob @ lt)"
    using rt p4 unfolding varlen_roundtrip_def by blast
  have pi: "parse_inputs vdec (length (inputs t)) (xi @ oc @ ob @ lt) [] = Inr (inputs t, oc @ ob @ lt)"
    using parse_assembled_inputs [OF rt ph, of "data1 @ ic" None xi sp "oc @ ob @ lt" "[]"] p3
    by simp
  have po: "parse_outputs vdec (length (outputs t)) (ob @ lt) [] = Inr (outputs t, lt)"
    using parse_assembled_outputs [OF rt p5, of lt "[]"] by simp
  have tk: "take 4 data = data0" and dr: "drop 4 data = ic @ xi @ oc @ ob @ lt"
    using l0 by (simp_all add: data)
  show ?thesis
    unfolding parse_body_def tk dr
    by (simp add: funpack_L_pack_L [OF p0] v1 pi v2 po bind_result_def)
qed

lemma disassemble_of_parse_body:
  assumes pb: "parse_body vdec data = Inr (ver, ins, outs, lt)"
    and p6: "pack_L lk = Inr lt"
    and ne: "data \<noteq> []"
  shows "disassemble vdec (Some data) dump fs u =
     Inr ((case fs of None \<Rightarrow> u | Some f \<Rightarrow> if f \<noteq> 0 then u\<lparr>fees := Some f\<rparr> else u)
       \<lparr>priv_raw := Some data, version := Some ver, inputs := ins, outputs := outs,
        locktime := lk, priv_hash := None, priv_raw := (if dump then None else Some data)\<rparr>)"
proof -
  have ll: "length lt = 4"
    using p6 by (rule pack_L_length)
  have tk: "take 4 lt = lt"
    using ll by simp
  show ?thesis
    unfolding disassemble_def Let_def
    using ne by (simp add: pb tk ll funpack_L_pack_L [OF p6] bind_result_def)
qed


text \<open>C1 (amended). For a transaction with no timestamp and no message field, whose
  inputs have 32-byte previous hashes and on which \<open>assemble\<close> succeeds, \<open>disassemble\<close>
  of the assembled buffer (into any transaction object) succeeds and gives the same inputs,
  outputs and lock time, and the version that \<open>assemble\<close> serialised: the one set
  before, or the default 1.\<close>

theorem disassemble_assemble:
  assumes rt: "varlen_roundtrip venc vdec"
    and nt: "n_time t = None"
    and msg: "transaction_message t = None"
    and ph: "\<forall>i \<in> set (inputs t). length (prevout_hash i) = 32"
    and asm: "assemble venc ser False t = Inr (Whole data, t')"
  shows "\<exists>u'. disassemble vdec (Some data) dump fs u = Inr u' \<and>
     inputs u' = inputs t \<and> outputs u' = outputs t \<and> locktime u' = locktime t \<and>
     version u' = version t' \<and>
     version t' = Some (case version t of None \<Rightarrow> 1 | Some v \<Rightarrow> v)"
  using asm
proof (rule assemble_Inr_cases)
  fix ver data0 data1 ic xi sp oc ob lt d
  assume ver: "ver = (case version t of None \<Rightarrow> default_version t | Some v \<Rightarrow> v)"
    and p0: "pack_L ver = Inr data0"
    and p1: "case n_time t of None \<Rightarrow> data1 = data0
       | Some nt \<Rightarrow> \<exists>b. pack_i nt = Inr b \<and> data1 = data0 @ b"
    and p2: "venc (length (inputs t)) = Inr ic"
    and p3: "assemble_inputs venc (inputs t) (data1 @ ic, None) = Inr (data1 @ ic @ xi, sp)"
    and p4: "venc (length (outputs t)) = Inr oc"
    and p5: "assemble_outputs venc (outputs t) [] = Inr ob"
    and p6: "pack_L (locktime t) = Inr lt"
    and d: "d = data1 @ ic @ xi @ oc @ ob @ lt @
       (case transaction_message t of None \<Rightarrow> [] | Some m \<Rightarrow> ser m)"
    and t': "t' = t\<lparr>version := Some ver, priv_raw := Some d, priv_hash := None\<rparr>"
    and res: "Whole data = (if False then Halves (slice_to sp d) (slice_from sp d) else Whole d)"
  have dd: "d = data"
    using res by simp
  have d10: "data1 = data0"
    using p1 by (simp add: nt)
  have data: "data = data0 @ ic @ xi @ oc @ ob @ lt"
    unfolding dd [symmetric] d d10 by (simp add: msg)
  have "length data0 = 4"
    using p0 by (rule pack_L_length)
  then have ne: "data \<noteq> []"
    unfolding data by auto
  have pb: "parse_body vdec data = Inr (ver, inputs t, outputs t, lt)"
    by (rule parse_body_assembled [OF rt ph p0 p2 p3 p4 p5 p6 data])
  note dis = disassemble_of_parse_body [OF pb p6 ne, of dump fs u]
  have dv: "default_version t = 1"
    by (simp add: default_version_def msg)
  have v': "version t' = Some ver"
    by (simp add: t')
  have vc: "ver = (case version t of None \<Rightarrow> 1 | Some v \<Rightarrow> v)"
    unfolding ver dv ..
  show ?thesis
    unfolding dis v' vc [symmetric] by simp
qed

theorem disassemble_assemble_witness:
  "n_time coinbase_tx = None \<and> transaction_message coinbase_tx = None \<and>
   assemble varlen_encode sample_ser_string False coinbase_tx =
     Inr (Whole coinbase_raw, assembled_coinbase_tx) \<and>
   (\<exists>u'. disassemble varlen_decode (Some coinbase_raw) False None fresh_tx = Inr u' \<and>
     inputs u' = inputs coinbase_tx \<and> outputs u' = outputs coinbase_tx \<and>
     locktime u' = locktime coinbase_tx \<and> version u' = version assembled_coinbase_tx \<and>
     version assembled_coinbase_tx = Some (case version coinbase_tx of None \<Rightarrow> 1 | Some v \<Rightarrow> v))"
proof -
  have nt: "n_time coinbase_tx = None" and msg: "transaction_message coinbase_tx = None"
    by (simp_all add: coinbase_tx_def fresh_tx_def)
  have ph: "\<forall>i \<in> set (inputs coinbase_tx). length (prevout_hash i) = 32"
    by (simp add: coinbase_tx_def coinbase_input_def)
  have asm: "assemble varlen_encode sample_ser_string False coinbase_tx =
     Inr (Whole coinbase_raw, assembled_coinbase_tx)"
    by (rule assemble_coinbase_tx)
  from disassemble_assemble [OF varlen_roundtrip_instance nt msg ph asm, of False None fresh_tx]
    nt msg asm
  show ?thesis by blast
qed

text \<open>C1 as stated fails for \<open>Transaction(pos=True)\<close>: \<open>assemble\<close> writes the 4-byte
  timestamp after the version, \<open>disassemble\<close> does not read it, and four bytes too many
  are left at the lock time.\<close>

theorem disassemble_assemble_timestamp_counterexample:
  "assemble varlen_encode sample_ser_string False pos_tx =
     Inr (Whole [1, 0, 0, 0, 0, 0, 0, 0, 0, 0, 0, 0, 0, 0],
          pos_tx\<lparr>version := Some 1, priv_raw := Some [1, 0, 0, 0, 0, 0, 0, 0, 0, 0, 0, 0, 0, 0]\<rparr>) \<and>
   disassemble varlen_decode (Some [1, 0, 0, 0, 0, 0, 0, 0, 0, 0, 0, 0, 0, 0]) False None
     (pos_tx\<lparr>version := Some 1, priv_raw := Some [1, 0, 0, 0, 0, 0, 0, 0, 0, 0, 0, 0, 0, 0]\<rparr>)
     = Inl AssertionError"
  by code_simp

section \<open>Trailing bytes\<close>

lemma vdec_append:
  "varlen_reads_prefix vdec \<Longrightarrow> vdec b = Inr (n, r) \<Longrightarrow> vdec (b @ e) = Inr (n, r @ e)"
  unfolding varlen_reads_prefix_def by (metis append.assoc)

lemma vdec_length:
  "varlen_reads_prefix vdec \<Longrightarrow> vdec b = Inr (n, r) \<Longrightarrow> length r \<le> length b"
  unfolding varlen_reads_prefix_def by (metis length_append le_add2)

lemma funpack_L_take: "funpack_L (take 4 xs) = Inr v \<Longrightarrow> 4 \<le> length xs"
  by (auto simp add: funpack_L_def split: if_splits)

lemma funpack_Q_take: "funpack_Q (take 8 xs) = Inr v \<Longrightarrow> 8 \<le> length xs"
  by (auto simp add: funpack_Q_def split: if_splits)

lemma parse_inputs_append:
  assumes rp: "varlen_reads_prefix vdec"
  shows "parse_inputs vdec n data acc = Inr (ins, rest) \<Longrightarrow>
     parse_inputs vdec n (data @ e) acc = Inr (ins, rest @ e)"
proof (induction n arbitrary: data acc)
  case 0
  then show ?case by simp
next
  case (Suc n)
  from Suc.prems obtain idx ss_len data1 sq where
    idx: "funpack_L (take 4 (drop 32 data)) = Inr idx"
    and v: "vdec (drop 36 data) = Inr (ss_len, data1)"
    and sq: "funpack_L (take 4 (drop ss_len data1)) = Inr sq"
    and r: "parse_inputs vdec n (drop (ss_len + 4) data1)
          (acc @ [\<lparr>prevout_hash = take 32 data, prevout_idx = idx,
                   script_sig = take ss_len data1, seqno = sq\<rparr>]) = Inr (ins, rest)"
    by (auto split: sum.splits)
  from funpack_L_take [OF idx] have l36: "36 \<le> length data"
    by simp
  from funpack_L_take [OF sq] have l1: "ss_len + 4 \<le> length data1"
    by simp
  have v': "vdec (drop 36 data @ e) = Inr (ss_len, data1 @ e)"
    by (rule vdec_append [OF rp v])
  show ?case
    using Suc.IH [OF r] l36 l1 by (simp add: idx v' sq)
qed

lemma parse_outputs_length:
  assumes rp: "varlen_reads_prefix vdec"
  shows "parse_outputs vdec n data acc = Inr (outs, rest) \<Longrightarrow> length rest \<le> length data"
proof (induction n arbitrary: data acc)
  case 0
  then show ?case by simp
next
  case (Suc n)
  from Suc.prems obtain amt ps_len data1 where
    v: "vdec (drop 8 data) = Inr (ps_len, data1)"
    and r: "parse_outputs vdec n (drop ps_len data1)
          (acc @ [\<lparr>amount = amt, script_pub_key = take ps_len data1\<rparr>]) = Inr (outs, rest)"
    by (auto split: sum.splits)
  from Suc.IH [OF r] vdec_length [OF rp v] show ?case
    by simp
qed

lemma parse_outputs_append:
  assumes rp: "varlen_reads_prefix vdec"
  shows "parse_outputs vdec n data acc = Inr (outs, rest) \<Longrightarrow> rest \<noteq> [] \<Longrightarrow>
     parse_outputs vdec n (data @ e) acc = Inr (outs, rest @ e)"
proof (induction n arbitrary: data acc)
  case 0
  then show ?case by simp
next
  case (Suc n)
  from Suc.prems(1) obtain amt ps_len data1 where
    amt: "funpack_Q (take 8 data) = Inr amt"
    and v: "vdec (drop 8 data) = Inr (ps_len, data1)"
    and r: "parse_outputs vdec n (drop ps_len data1)
          (acc @ [\<lparr>amount = amt, script_pub_key = take ps_len data1\<rparr>]) = Inr (outs, rest)"
    by (auto split: sum.splits)
  from funpack_Q_take [OF amt] have l8: "8 \<le> length data" .
  from parse_outputs_length [OF rp r] Suc.prems(2) have l1: "ps_len \<le> length data1"
    by (cases "ps_len \<le> length data1") auto
  have v': "vdec (drop 8 data @ e) = Inr (ps_len, data1 @ e)"
    by (rule vdec_append [OF rp v])
  show ?case
    using Suc.IH [OF r Suc.prems(2)] l8 l1 by (simp add: amt v')
qed

lemma parse_body_append:
  assumes rp: "varlen_reads_prefix vdec"
    and pb: "parse_body vdec b = Inr (ver, ins, outs, rest)"
    and ne: "rest \<noteq> []"
  shows "parse_body vdec (b @ e) = Inr (ver, ins, outs, rest @ e)"
proof -
  from pb obtain input_count data1 data2 output_count data3 where
    ver: "funpack_L (take 4 b) = Inr ver"
    and v1: "vdec (drop 4 b) = Inr (input_count, data1)"
    and pi: "parse_inputs vdec input_count data1 [] = Inr (ins, data2)"
    and v2: "vdec data2 = Inr (output_count, data3)"
    and po: "parse_outputs vdec output_count data3 [] = Inr (outs, rest)"
    unfolding parse_body_def
    by (auto simp add: bind_result_def split: sum.splits prod.splits)
  from funpack_L_take [OF ver] have l4: "4 \<le> length b" .
  have v1': "vdec (drop 4 b @ e) = Inr (input_count, data1 @ e)"
    by (rule vdec_append [OF rp v1])
  have pi': "parse_inputs vdec input_count (data1 @ e) [] = Inr (ins, data2 @ e)"
    by (rule parse_inputs_append [OF rp pi])
  have v2': "vdec (data2 @ e) = Inr (output_count, data3 @ e)"
    by (rule vdec_append [OF rp v2])
  have po': "parse_outputs vdec output_count (data3 @ e) [] = Inr (outs, rest @ e)"
    by (rule parse_outputs_append [OF rp po ne])
  show ?thesis
    unfolding parse_body_def using l4
    by (simp add: ver v1' pi' v2' po' bind_result_def)
qed


lemma disassemble_by_parse_body:
  assumes ne: "b \<noteq> []"
    and pb: "parse_body vdec b = Inr (ver, ins, outs, rest)"
  shows "disassemble vdec (Some b) dump fs t =
     (if length rest < 4 then Inl StructError
      else if length rest \<noteq> 4 then Inl AssertionError
      else Inr ((case fs of None \<Rightarrow> t | Some f \<Rightarrow> if f \<noteq> 0 then t\<lparr>fees := Some f\<rparr> else t)
        \<lparr>priv_raw := Some b, version := Some ver, inputs := ins, outputs := outs,
         locktime := le_int rest, priv_hash := None,
         priv_raw := (if dump then None else Some b)\<rparr>))"
  unfolding disassemble_def Let_def
  using ne by (simp add: pb bind_result_def funpack_L_def)

lemma disassemble_Inr_parse_body:
  assumes ne: "b \<noteq> []"
    and dis: "disassemble vdec (Some b) dump fs t = Inr t'"
  shows "\<exists>ver ins outs rest. parse_body vdec b = Inr (ver, ins, outs, rest) \<and> length rest = 4"
proof (cases "parse_body vdec b")
  case (Inl err)
  with dis ne show ?thesis
    by (simp add: disassemble_def Let_def bind_result_def)
next
  case (Inr res)
  obtain ver ins outs rest where res: "res = (ver, ins, outs, rest)"
    by (cases res)
  from disassemble_by_parse_body [OF ne Inr [unfolded res], of dump fs t] dis
  have "length rest = 4"
    by (simp split: if_splits)
  with Inr res show ?thesis by simp
qed

text \<open>C3. When \<open>disassemble\<close> accepts a buffer, it rejects the same buffer followed by
  any extra bytes with the failed assertion. After the inputs and outputs are parsed,
  exactly 4 bytes must be left: fewer make the lock-time unpack fail, more make the
  assertion fail.\<close>

theorem disassemble_trailing_bytes:
  assumes rp: "varlen_reads_prefix vdec"
  shows "(b \<noteq> [] \<longrightarrow> e \<noteq> [] \<longrightarrow> disassemble vdec (Some b) dump fs t = Inr t' \<longrightarrow>
       disassemble vdec (Some (b @ e)) dump fs t = Inl AssertionError) \<and>
     (parse_body vdec b = Inr (ver, ins, outs, rest) \<longrightarrow>
       (length rest < 4 \<longrightarrow> disassemble vdec (Some b) dump fs t = Inl StructError) \<and>
       (4 < length rest \<longrightarrow> disassemble vdec (Some b) dump fs t = Inl AssertionError) \<and>
       (length rest = 4 \<longrightarrow> (\<exists>u. disassemble vdec (Some b) dump fs t = Inr u)))"
proof (intro conjI impI)
  assume ne: "b \<noteq> []" and e: "e \<noteq> []"
    and dis: "disassemble vdec (Some b) dump fs t = Inr t'"
  from disassemble_Inr_parse_body [OF ne dis] obtain ver' ins' outs' rest' where
    pb: "parse_body vdec b = Inr (ver', ins', outs', rest')" and l: "length rest' = 4"
    by blast
  from l have "rest' \<noteq> []" by auto
  from parse_body_append [OF rp pb this]
  have pb': "parse_body vdec (b @ e) = Inr (ver', ins', outs', rest' @ e)" .
  have "b @ e \<noteq> []"
    using ne by simp
  from disassemble_by_parse_body [OF this pb', of dump fs t] l e
  show "disassemble vdec (Some (b @ e)) dump fs t = Inl AssertionError"
    by simp
next
  assume pb: "parse_body vdec b = Inr (ver, ins, outs, rest)"
  then have "funpack_L (take 4 b) \<noteq> Inl StructError"
    unfolding parse_body_def by (auto simp add: bind_result_def funpack_L_def split: if_splits)
  then have ne: "b \<noteq> []"
    by (auto simp add: funpack_L_def)
  note d = disassemble_by_parse_body [OF ne pb, of dump fs t]
  {
    assume "length rest < 4"
    then show "disassemble vdec (Some b) dump fs t = Inl StructError"
      by (simp add: d)
  }
  {
    assume "4 < length rest"
    then show "disassemble vdec (Some b) dump fs t = Inl AssertionError"
      by (simp add: d)
  }
  {
    assume "length rest = 4"
    then show "\<exists>u. disassemble vdec (Some b) dump fs t = Inr u"
      by (simp add: d)
  }
qed

lemma disassemble_coinbase_raw:
  "disassemble varlen_decode (Some coinbase_raw) False None fresh_tx = Inr assembled_coinbase_tx"
  unfolding assembled_coinbase_tx_def by code_simp

lemma parse_body_coinbase_raw:
  "parse_body varlen_decode coinbase_raw = Inr (1, [coinbase_input], [empty_output], [0, 0, 0, 0])"
  by code_simp

theorem disassemble_trailing_bytes_witness:
  "coinbase_raw \<noteq> [] \<and> [0 :: byte] \<noteq> [] \<and>
   disassemble varlen_decode (Some coinbase_raw) False None fresh_tx = Inr assembled_coinbase_tx \<and>
   disassemble varlen_decode (Some (coinbase_raw @ [0])) False None fresh_tx = Inl AssertionError \<and>
   parse_body varlen_decode coinbase_raw = Inr (1, [coinbase_input], [empty_output], [0, 0, 0, 0]) \<and>
   length [0, 0, 0, 0 :: byte] = 4 \<and>
   (\<exists>u. disassemble varlen_decode (Some coinbase_raw) False None fresh_tx = Inr u)"
proof -
  have ne: "coinbase_raw \<noteq> []"
    by (simp add: coinbase_raw_def)
  have e: "[0 :: byte] \<noteq> []"
    by simp
  note th = disassemble_trailing_bytes [OF varlen_reads_prefix_instance,
      of coinbase_raw "[0]" False None fresh_tx assembled_coinbase_tx
         1 "[coinbase_input]" "[empty_output]" "[0, 0, 0, 0]"]
  from th ne e disassemble_coinbase_raw parse_body_coinbase_raw
  show ?thesis by simp
qed

section \<open>The serialiser succeeds on values that fit the wire format\<close>

lemma varlen_encode_succeeds: "n < 2 ^ 64 \<Longrightarrow> \<exists>b. varlen_encode n = Inr b"
  by (simp add: varlen_encode_def del: le_bytes_numeral)

lemma assemble_inputs_succeeds:
  "\<forall>i \<in> set ins. 0 \<le> prevout_idx i \<and> prevout_idx i < 2 ^ 32 \<and>
         0 \<le> seqno i \<and> seqno i < 2 ^ 32 \<and> length (script_sig i) < 2 ^ 64 \<Longrightarrow>
   \<exists>d' sp'. assemble_inputs varlen_encode ins (d, sp) = Inr (d', sp')"
proof (induction ins arbitrary: d sp)
  case Nil
  show ?case by simp
next
  case (Cons i rest)
  from Cons.prems have "length (script_sig i) < 2 ^ 64"
    by simp
  from varlen_encode_succeeds [OF this] obtain ln where
    ln: "varlen_encode (length (script_sig i)) = Inr ln" ..
  have idx: "pack_L (prevout_idx i) = Inr (le_bytes 4 (prevout_idx i))"
    and sq: "pack_L (seqno i) = Inr (le_bytes 4 (seqno i))"
    using Cons.prems by (simp_all add: pack_L_def del: le_bytes_numeral)
  have "\<forall>i \<in> set rest. 0 \<le> prevout_idx i \<and> prevout_idx i < 2 ^ 32 \<and>
         0 \<le> seqno i \<and> seqno i < 2 ^ 32 \<and> length (script_sig i) < 2 ^ 64"
    using Cons.prems by simp
  from Cons.IH [OF this] show ?case
    by (simp add: ln idx sq Let_def del: le_bytes_numeral)
qed

lemma assemble_outputs_succeeds:
  "\<forall>out \<in> set outs. 0 \<le> amount out \<and> amount out < 2 ^ 64 \<and>
         length (script_pub_key out) < 2 ^ 64 \<Longrightarrow>
   \<exists>d'. assemble_outputs varlen_encode outs d = Inr d'"
proof (induction outs arbitrary: d)
  case Nil
  show ?case by simp
next
  case (Cons out rest)
  from Cons.prems have "length (script_pub_key out) < 2 ^ 64"
    by simp
  from varlen_encode_succeeds [OF this] obtain ln where
    ln: "varlen_encode (length (script_pub_key out)) = Inr ln" ..
  have amt: "pack_Q (amount out) = Inr (le_bytes 8 (amount out))"
    using Cons.prems by (simp add: pack_Q_def del: le_bytes_numeral)
  have "\<forall>out \<in> set rest. 0 \<le> amount out \<and> amount out < 2 ^ 64 \<and>
         length (script_pub_key out) < 2 ^ 64"
    using Cons.prems by simp
  from Cons.IH [OF this] show ?case
    by (simp add: ln amt del: le_bytes_numeral)
qed

lemma assemble_succeeds:
  assumes fw: "fits_wire t"
  shows "\<exists>res t'. assemble varlen_encode ser split t = Inr (res, t')"
proof -
  define ver where "ver = (case version t of None \<Rightarrow> default_version t | Some v \<Rightarrow> v)"
  have "0 \<le> ver \<and> ver < 2 ^ 32"
    using fw by (auto simp add: ver_def fits_wire_def default_version_def split: option.splits)
  then have p0: "pack_L ver = Inr (le_bytes 4 ver)"
    by (simp add: pack_L_def del: le_bytes_numeral)
  obtain data1 where p1: "(case n_time t of None \<Rightarrow> Inr (le_bytes 4 ver)
       | Some nt \<Rightarrow> bind_result (pack_i nt) (\<lambda>b. Inr (le_bytes 4 ver @ b))) = Inr data1"
    using fw
    by (cases "n_time t") (auto simp add: fits_wire_def pack_i_def bind_result_def simp del: le_bytes_numeral)
  from fw have "length (inputs t) < 2 ^ 64" "length (outputs t) < 2 ^ 64"
    by (simp_all add: fits_wire_def)
  then obtain ic oc where p2: "varlen_encode (length (inputs t)) = Inr ic"
    and p4: "varlen_encode (length (outputs t)) = Inr oc"
    using varlen_encode_succeeds by blast
  from fw have "\<forall>i \<in> set (inputs t). 0 \<le> prevout_idx i \<and> prevout_idx i < 2 ^ 32 \<and>
         0 \<le> seqno i \<and> seqno i < 2 ^ 32 \<and> length (script_sig i) < 2 ^ 64"
    by (simp add: fits_wire_def)
  from assemble_inputs_succeeds [OF this] obtain data2 sp where
    p3: "assemble_inputs varlen_encode (inputs t) (data1 @ ic, None) = Inr (data2, sp)"
    by blast
  from fw have "\<forall>out \<in> set (outputs t). 0 \<le> amount out \<and> amount out < 2 ^ 64 \<and>
         length (script_pub_key out) < 2 ^ 64"
    by (simp add: fits_wire_def)
  from assemble_outputs_succeeds [OF this] obtain data3 where
    p5: "assemble_outputs varlen_encode (outputs t) (data2 @ oc) = Inr data3"
    by blast
  from fw have p6: "pack_L (locktime t) = Inr (le_bytes 4 (locktime t))"
    by (simp add: fits_wire_def pack_L_def del: le_bytes_numeral)
  show ?thesis
    unfolding assemble_def ver_def [symmetric] Let_def
    using p1 by (simp add: p0 p2 p3 p4 p5 p6 bind_result_def del: le_bytes_numeral)
qed

end
